theory Spec2Isabelle
  imports Main
begin

section \<open>Time values\<close>

text \<open>
  The limiter reads the clock with \<^verbatim>\<open>time.Now()\<close> and compares instants with
  \<^verbatim>\<open>now.Sub(t) < rl.window\<close>. An instant is modelled as its reading in
  nanoseconds on an unbounded time line, a \<^verbatim>\<open>time.Duration\<close> as an integer number of
  nanoseconds. \<^verbatim>\<open>Duration\<close> is a 64-bit signed integer and \<^verbatim>\<open>Time.Sub\<close>
  saturates at its two ends instead of wrapping; the saturation is written out.
\<close>

type_synonym Time = int
type_synonym Duration = int

definition minDuration :: Duration where
  "minDuration = - (2 ^ 63)"

definition maxDuration :: Duration where
  "maxDuration = 2 ^ 63 - 1"

definition Sub :: "Time \<Rightarrow> Time \<Rightarrow> Duration" where
  "Sub t u =
     (let d = t - u
      in if d < minDuration then minDuration
         else if maxDuration < d then maxDuration
         else d)"

section \<open>The rate limiter\<close>

text \<open>
  \<^verbatim>\<open>type RateLimiter struct { requests map[string][]time.Time; mu sync.Mutex;
  limit int; window time.Duration }\<close>.
  The mutex is held for the whole body of \<^verbatim>\<open>Allow\<close> and of one cleanup tick, so each
  of them is one transition of the state below; the field \<^verbatim>\<open>mu\<close> has no other content.
\<close>

record RateLimiter =
  requests :: "string \<rightharpoonup> Time list"
  limit :: int
  window :: Duration

text \<open>
  \<^verbatim>\<open>NewRateLimiter\<close>: an empty map and the two parameters, stored unchecked. The
  goroutine it starts is the ticker loop around \<open>cleanup_pass\<close> below.
\<close>

definition NewRateLimiter :: "int \<Rightarrow> Duration \<Rightarrow> RateLimiter" where
  "NewRateLimiter lim win = \<lparr>requests = Map.empty, limit = lim, window = win\<rparr>"

text \<open>
  The filtering loop that both \<^verbatim>\<open>cleanup\<close> and \<^verbatim>\<open>Allow\<close> contain:
  \<^verbatim>\<open>validTimes := []time.Time{}
  for _, t := range times { if now.Sub(t) < rl.window { validTimes = append(validTimes, t) } }\<close>
  The second argument of \<open>validTimes_loop\<close> is the slice built so far.
\<close>

fun validTimes_loop :: "Time \<Rightarrow> Duration \<Rightarrow> Time list \<Rightarrow> Time list \<Rightarrow> Time list" where
  "validTimes_loop now win acc [] = acc"
| "validTimes_loop now win acc (t # tms) =
     (if Sub now t < win then validTimes_loop now win (acc @ [t]) tms
      else validTimes_loop now win acc tms)"

definition validTimes :: "Time \<Rightarrow> Duration \<Rightarrow> Time list \<Rightarrow> Time list" where
  "validTimes now win tms = validTimes_loop now win [] tms"

text \<open>
  \<^verbatim>\<open>Allow\<close>, with the clock reading \<open>now\<close> taken inside the lock passed as an argument.
  The result is the returned boolean and the limiter afterwards. The three exits of the
  source are the three branches: key absent, limit reached, request recorded.
\<close>

definition Allow :: "RateLimiter \<Rightarrow> Time \<Rightarrow> string \<Rightarrow> bool \<times> RateLimiter" where
  "Allow rl now key =
     (case requests rl key of
        None \<Rightarrow> (True, rl\<lparr>requests := (requests rl)(key \<mapsto> [now])\<rparr>)
      | Some tms \<Rightarrow>
          (let vt = validTimes now (window rl) tms
           in if limit rl \<le> int (length vt) then (False, rl)
              else (True, rl\<lparr>requests := (requests rl)(key \<mapsto> vt @ [now])\<rparr>)))"

text \<open>
  One tick of \<^verbatim>\<open>cleanup\<close>: the body of \<^verbatim>\<open>for range ticker.C\<close>, between
  \<^verbatim>\<open>rl.mu.Lock()\<close> and \<^verbatim>\<open>rl.mu.Unlock()\<close>. \<open>cleanup_key\<close> is the body of the
  inner \<^verbatim>\<open>for key, times := range rl.requests\<close>; Go leaves the order of a map
  iteration open, so the order \<open>keys\<close> in which the pass meets the keys is an argument.
  An iteration only writes or deletes the entry of its own key, so \<open>tms\<close> (the source's \<^verbatim>\<open>times\<close>) is the entry
  as it stands when the key is met; a key that is not in the map is never produced by
  \<^verbatim>\<open>range\<close>, and is skipped here.
\<close>

definition cleanup_key :: "Time \<Rightarrow> RateLimiter \<Rightarrow> string \<Rightarrow> RateLimiter" where
  "cleanup_key now rl key =
     (case requests rl key of
        None \<Rightarrow> rl
      | Some tms \<Rightarrow>
          (let vt = validTimes now (window rl) tms
           in if length vt = 0 then rl\<lparr>requests := (requests rl)(key := None)\<rparr>
              else rl\<lparr>requests := (requests rl)(key \<mapsto> vt)\<rparr>))"

definition cleanup_pass :: "RateLimiter \<Rightarrow> Time \<Rightarrow> string list \<Rightarrow> RateLimiter" where
  "cleanup_pass rl now keys = foldl (cleanup_key now) rl keys"

section \<open>The middleware\<close>

text \<open>
  \<^verbatim>\<open>RateLimitMiddleware\<close> uses four operations of the web framework's request context:
  \<^verbatim>\<open>ClientIP\<close>, \<^verbatim>\<open>JSON\<close>, \<^verbatim>\<open>Abort\<close> and \<^verbatim>\<open>Next\<close>. The context is modelled by
  what these read and write: the client address, the response written so far (status
  code and JSON object, as a list of key and value pairs) and the abort mark that stops
  the framework from calling the handlers still pending. \<^verbatim>\<open>c.Next()\<close> runs the rest
  of the handler chain; that rest is the argument \<open>next\<close>.
\<close>

record Context =
  ClientIP :: string
  response :: "(nat \<times> (string \<times> string) list) option"
  aborted :: bool

definition StatusTooManyRequests :: nat where
  "StatusTooManyRequests = 429"

definition JSON :: "nat \<Rightarrow> (string \<times> string) list \<Rightarrow> Context \<Rightarrow> Context" where
  "JSON code obj c = c\<lparr>response := Some (code, obj)\<rparr>"

definition Abort :: "Context \<Rightarrow> Context" where
  "Abort c = c\<lparr>aborted := True\<rparr>"

definition RateLimitMiddleware ::
  "RateLimiter \<Rightarrow> Time \<Rightarrow> (Context \<Rightarrow> Context) \<Rightarrow> Context \<Rightarrow> RateLimiter \<times> Context" where
  "RateLimitMiddleware limiter now next c =
     (let key = ClientIP c;
          (ok, limiter') = Allow limiter now key
      in if \<not> ok
         then (limiter',
               Abort (JSON StatusTooManyRequests
                        [(''error'', ''Rate limit exceeded. Please try again later.'')] c))
         else (limiter', next c))"

section \<open>Runs of a limiter\<close>

text \<open>
  A run is the sequence of critical sections that the mutex puts in order: calls of
  \<^verbatim>\<open>Allow\<close> and ticks of the cleanup loop, each with the clock reading it takes.
  \<open>run\<close> returns the booleans of the calls, in order, and the limiter at the end.
\<close>

datatype event = CallAllow string Time | Tick Time "string list"

fun event_time :: "event \<Rightarrow> Time" where
  "event_time (CallAllow key now) = now"
| "event_time (Tick now keys) = now"

fun run :: "RateLimiter \<Rightarrow> event list \<Rightarrow> bool list \<times> RateLimiter" where
  "run rl [] = ([], rl)"
| "run rl (CallAllow key now # evs) =
     (let (b, rl') = Allow rl now key;
          (bs, rl'') = run rl' evs
      in (b # bs, rl''))"
| "run rl (Tick now keys # evs) = run (cleanup_pass rl now keys) evs"

text \<open>
  The invariant of runs: no key holds more timestamps than the limit, and no stored
  timestamp is later than the clock reading \<open>now\<close>.
\<close>

definition quota_respected :: "Time \<Rightarrow> RateLimiter \<Rightarrow> bool" where
  "quota_respected now rl \<longleftrightarrow>
     (\<forall>key tms. requests rl key = Some tms \<longrightarrow>
        int (length tms) \<le> limit rl \<and> (\<forall>t\<in>set tms. t \<le> now))"

section \<open>Facts about the filtering loop and the time difference\<close>

lemma validTimes_loop_filter:
  "validTimes_loop now win acc tms = acc @ filter (\<lambda>t. Sub now t < win) tms"
  by (induction tms arbitrary: acc) simp_all

lemma validTimes_filter: "validTimes now win tms = filter (\<lambda>t. Sub now t < win) tms"
  by (simp add: validTimes_def validTimes_loop_filter)

lemma Sub_mono: "a \<le> b \<Longrightarrow> Sub a t \<le> Sub b t"
  by (simp add: Sub_def Let_def minDuration_def maxDuration_def)

lemma Sub_less_if: "0 < w \<Longrightarrow> now - t < w \<Longrightarrow> Sub now t < w"
  by (auto simp add: Sub_def Let_def minDuration_def maxDuration_def)

lemma Sub_less_only_if: "w \<le> maxDuration \<Longrightarrow> Sub now t < w \<Longrightarrow> now - t < w"
  by (auto simp add: Sub_def Let_def minDuration_def maxDuration_def split: if_splits)

lemma Sub_less_iff:
  "0 < w \<Longrightarrow> w \<le> maxDuration \<Longrightarrow> Sub now t < w \<longleftrightarrow> now - t < w"
  using Sub_less_if Sub_less_only_if by blast

section \<open>A key that is not in the map\<close>

text \<open>
  Claim C10. When the key has no entry in the map, \<open>Allow\<close> returns true and stores the
  one-element sequence \<open>[now]\<close> for it, and changes nothing else; the limit is not
  looked at, so this holds for a limit of zero or below as well.
\<close>

theorem Allow_unseen_key:
  "requests rl key = None \<Longrightarrow>
   Allow rl now key = (True, rl\<lparr>requests := (requests rl)(key \<mapsto> [now])\<rparr>)"
  by (simp add: Allow_def)

theorem Allow_unseen_key_witness:
  "requests (NewRateLimiter 0 1000) ''10.0.0.1'' = None \<and>
   requests (NewRateLimiter (- 3) 1000) ''10.0.0.1'' = None \<and>
   fst (Allow (NewRateLimiter 0 1000) 5 ''10.0.0.1'') = True \<and>
   requests (snd (Allow (NewRateLimiter 0 1000) 5 ''10.0.0.1'')) ''10.0.0.1'' = Some [5] \<and>
   fst (Allow (NewRateLimiter (- 3) 1000) 5 ''10.0.0.1'') = True"
proof -
  have h0: "requests (NewRateLimiter 0 1000) ''10.0.0.1'' = None"
    by (simp add: NewRateLimiter_def)
  have h1: "requests (NewRateLimiter (- 3) 1000) ''10.0.0.1'' = None"
    by (simp add: NewRateLimiter_def)
  show ?thesis
    using h0 h1 Allow_unseen_key [OF h0, of 5] Allow_unseen_key [OF h1, of 5]
    by simp
qed

section \<open>What one call of Allow leaves alone\<close>

lemma Allow_limit [simp]: "limit (snd (Allow rl now key)) = limit rl"
  by (simp add: Allow_def Let_def split: option.splits)

lemma Allow_window [simp]: "window (snd (Allow rl now key)) = window rl"
  by (simp add: Allow_def Let_def split: option.splits)

lemma Allow_requests_other:
  "key' \<noteq> key \<Longrightarrow> requests (snd (Allow rl now key)) key' = requests rl key'"
  by (simp add: Allow_def Let_def split: option.splits)

lemma Allow_depends_on_own_entry:
  "limit rl1 = limit rl2 \<Longrightarrow> window rl1 = window rl2 \<Longrightarrow>
   requests rl1 key = requests rl2 key \<Longrightarrow>
   fst (Allow rl1 now key) = fst (Allow rl2 now key) \<and>
   requests (snd (Allow rl1 now key)) key = requests (snd (Allow rl2 now key)) key"
  by (simp add: Allow_def Let_def split: option.splits)

lemma run_CallAllow_Cons:
  "run rl (CallAllow key now # evs) =
     (fst (Allow rl now key) # fst (run (snd (Allow rl now key)) evs),
      snd (run (snd (Allow rl now key)) evs))"
  by (simp add: Let_def split: prod.splits)

text \<open>
  Claim C4. A call of \<open>Allow\<close> that returns false leaves the limiter exactly as it was:
  no timestamp is appended, for this key or any other. So whatever follows the denied
  call (waiting for the window to roll over, further calls, cleanup ticks) gives the
  same answers and the same final state as if the denied call had not been made.
\<close>

theorem Allow_denied_not_recorded:
  "\<not> fst (Allow rl now key) \<Longrightarrow>
   snd (Allow rl now key) = rl \<and>
   run rl (CallAllow key now # evs) = (False # fst (run rl evs), snd (run rl evs))"
  by (auto simp add: Allow_def Let_def split: option.splits if_splits prod.splits)

theorem Allow_denied_not_recorded_witness:
  "\<not> fst (Allow (snd (Allow (NewRateLimiter 1 100) 0 ''10.0.0.1'')) 10 ''10.0.0.1'') \<and>
   snd (Allow (snd (Allow (NewRateLimiter 1 100) 0 ''10.0.0.1'')) 10 ''10.0.0.1'')
     = snd (Allow (NewRateLimiter 1 100) 0 ''10.0.0.1'') \<and>
   fst (run (snd (Allow (NewRateLimiter 1 100) 0 ''10.0.0.1''))
          [CallAllow ''10.0.0.1'' 10, CallAllow ''10.0.0.1'' 150]) = [False, True] \<and>
   fst (run (snd (Allow (NewRateLimiter 1 100) 0 ''10.0.0.1''))
          [CallAllow ''10.0.0.1'' 150]) = [True]"
proof -
  let ?rl = "snd (Allow (NewRateLimiter 1 100) 0 ''10.0.0.1'')"
  have h: "\<not> fst (Allow ?rl 10 ''10.0.0.1'')"
    by (simp add: Allow_def NewRateLimiter_def validTimes_def Sub_def minDuration_def
        maxDuration_def)
  have r: "fst (run ?rl [CallAllow ''10.0.0.1'' 150]) = [True]"
    by (simp add: Allow_def NewRateLimiter_def validTimes_def Sub_def minDuration_def
        maxDuration_def)
  show ?thesis
    using h r Allow_denied_not_recorded [OF h, of "[CallAllow ''10.0.0.1'' 150]"]
    by simp
qed

section \<open>Distinct keys\<close>

lemma run_same_key_agree:
  "limit rl1 = limit rl2 \<Longrightarrow> window rl1 = window rl2 \<Longrightarrow>
   requests rl1 key = requests rl2 key \<Longrightarrow>
   fst (run rl1 (map (CallAllow key) ts)) = fst (run rl2 (map (CallAllow key) ts))"
proof (induction ts arbitrary: rl1 rl2)
  case Nil
  show ?case by simp
next
  case (Cons t ts)
  have step: "fst (Allow rl1 t key) = fst (Allow rl2 t key) \<and>
      requests (snd (Allow rl1 t key)) key = requests (snd (Allow rl2 t key)) key"
    using Cons.prems by (rule Allow_depends_on_own_entry)
  have "fst (run (snd (Allow rl1 t key)) (map (CallAllow key) ts)) =
        fst (run (snd (Allow rl2 t key)) (map (CallAllow key) ts))"
    using Cons.prems step by (intro Cons.IH) simp_all
  with step show ?case
    by (simp only: list.map run_CallAllow_Cons fst_conv)
qed

lemma run_other_key_frame:
  "A \<noteq> B \<Longrightarrow>
   limit (snd (run rl (map (CallAllow A) ts))) = limit rl \<and>
   window (snd (run rl (map (CallAllow A) ts))) = window rl \<and>
   requests (snd (run rl (map (CallAllow A) ts))) B = requests rl B"
proof (induction ts arbitrary: rl)
  case Nil
  show ?case by simp
next
  case (Cons t ts)
  from Cons.IH [OF Cons.prems, of "snd (Allow rl t A)"] Cons.prems
  show ?case
    by (simp only: list.map run_CallAllow_Cons snd_conv Allow_limit Allow_window)
       (simp add: Allow_requests_other)
qed

text \<open>
  Claim C6. For two distinct keys \<open>A\<close> and \<open>B\<close>: a call \<open>Allow A\<close> leaves the entry of
  \<open>B\<close> as it was; its answer and the new entry of \<open>A\<close> are the same in any limiter with
  the same limit, window and entry for \<open>A\<close>, whatever the other entries are; and after
  any sequence of calls for \<open>A\<close>, at any times, the answers to a sequence of calls for
  \<open>B\<close> are those the limiter would have given without the calls for \<open>A\<close>.
\<close>

theorem distinct_keys_independent:
  assumes "A \<noteq> B"
  shows "requests (snd (Allow rl now A)) B = requests rl B \<and>
         (\<forall>rl'. limit rl' = limit rl \<and> window rl' = window rl \<and>
                requests rl' A = requests rl A \<longrightarrow>
            fst (Allow rl' now A) = fst (Allow rl now A) \<and>
            requests (snd (Allow rl' now A)) A = requests (snd (Allow rl now A)) A) \<and>
         fst (run (snd (run rl (map (CallAllow A) tsA))) (map (CallAllow B) tsB)) =
           fst (run rl (map (CallAllow B) tsB))"
proof (intro conjI allI impI)
  show "requests (snd (Allow rl now A)) B = requests rl B"
    using assms by (simp add: Allow_requests_other)
next
  fix rl' :: RateLimiter
  assume "limit rl' = limit rl \<and> window rl' = window rl \<and> requests rl' A = requests rl A"
  then show "fst (Allow rl' now A) = fst (Allow rl now A)"
    and "requests (snd (Allow rl' now A)) A = requests (snd (Allow rl now A)) A"
    using Allow_depends_on_own_entry [of rl' rl A now] by simp_all
next
  show "fst (run (snd (run rl (map (CallAllow A) tsA))) (map (CallAllow B) tsB)) =
        fst (run rl (map (CallAllow B) tsB))"
    using run_other_key_frame [OF assms, of rl tsA] by (intro run_same_key_agree) simp_all
qed

theorem distinct_keys_independent_witness:
  "''10.0.0.1'' \<noteq> ''10.0.0.2'' \<and>
   fst (run (NewRateLimiter 2 100) (map (CallAllow ''10.0.0.1'') [0, 1, 2, 3])) =
     [True, True, False, False] \<and>
   fst (run (snd (run (NewRateLimiter 2 100) (map (CallAllow ''10.0.0.1'') [0, 1, 2, 3])))
          (map (CallAllow ''10.0.0.2'') [4, 5, 6])) = [True, True, False]"
proof -
  have h: "''10.0.0.1'' \<noteq> ''10.0.0.2''" by simp
  have a: "fst (run (NewRateLimiter 2 100) (map (CallAllow ''10.0.0.1'') [0, 1, 2, 3])) =
      [True, True, False, False]"
    by (simp add: Allow_def NewRateLimiter_def validTimes_def Sub_def minDuration_def
        maxDuration_def)
  have b: "fst (run (NewRateLimiter 2 100) (map (CallAllow ''10.0.0.2'') [4, 5, 6])) =
      [True, True, False]"
    by (simp add: Allow_def NewRateLimiter_def validTimes_def Sub_def minDuration_def
        maxDuration_def)
  from distinct_keys_independent [OF h, of "NewRateLimiter 2 100" 0 "[0, 1, 2, 3]" "[4, 5, 6]"]
  have "fst (run (snd (run (NewRateLimiter 2 100) (map (CallAllow ''10.0.0.1'') [0, 1, 2, 3])))
          (map (CallAllow ''10.0.0.2'') [4, 5, 6])) =
        fst (run (NewRateLimiter 2 100) (map (CallAllow ''10.0.0.2'') [4, 5, 6]))"
    by blast
  with h a b show ?thesis by simp
qed

section \<open>The middleware's two outcomes\<close>

text \<open>
  Claim C8. When \<open>Allow\<close> returns false for the client's address, the middleware
  leaves the context with status 429 and the body
  \<^verbatim>\<open>{"error": "Rate limit exceeded. Please try again later."}\<close> and with the abort mark
  set, and its result is the same whatever the rest of the chain \<open>next\<close> is: the
  handler is not run. When \<open>Allow\<close> returns true the result is that of running the
  rest of the chain. In both cases the limiter is the one \<open>Allow\<close> returned.
\<close>

theorem RateLimitMiddleware_outcome:
  "(\<not> fst (Allow limiter now (ClientIP c)) \<longrightarrow>
      snd (RateLimitMiddleware limiter now next c) =
        c\<lparr>response := Some (429, [(''error'', ''Rate limit exceeded. Please try again later.'')]),
          aborted := True\<rparr> \<and>
      RateLimitMiddleware limiter now next c = RateLimitMiddleware limiter now next' c) \<and>
   (fst (Allow limiter now (ClientIP c)) \<longrightarrow>
      snd (RateLimitMiddleware limiter now next c) = next c) \<and>
   fst (RateLimitMiddleware limiter now next c) = snd (Allow limiter now (ClientIP c))"
  by (simp add: RateLimitMiddleware_def Let_def JSON_def Abort_def StatusTooManyRequests_def
      split: prod.splits)

theorem RateLimitMiddleware_outcome_witness:
  "\<not> fst (Allow (snd (Allow (NewRateLimiter 1 100) 0 ''10.0.0.1'')) 10
           (ClientIP \<lparr>ClientIP = ''10.0.0.1'', response = None, aborted = False\<rparr>)) \<and>
   snd (RateLimitMiddleware (snd (Allow (NewRateLimiter 1 100) 0 ''10.0.0.1'')) 10
          (\<lambda>c. c\<lparr>response := Some (200, [(''message'', ''ok'')])\<rparr>)
          \<lparr>ClientIP = ''10.0.0.1'', response = None, aborted = False\<rparr>) =
     \<lparr>ClientIP = ''10.0.0.1'',
      response = Some (429, [(''error'', ''Rate limit exceeded. Please try again later.'')]),
      aborted = True\<rparr> \<and>
   fst (Allow (NewRateLimiter 1 100) 0
           (ClientIP \<lparr>ClientIP = ''10.0.0.1'', response = None, aborted = False\<rparr>)) \<and>
   snd (RateLimitMiddleware (NewRateLimiter 1 100) 0
          (\<lambda>c. c\<lparr>response := Some (200, [(''message'', ''ok'')])\<rparr>)
          \<lparr>ClientIP = ''10.0.0.1'', response = None, aborted = False\<rparr>) =
     \<lparr>ClientIP = ''10.0.0.1'', response = Some (200, [(''message'', ''ok'')]),
      aborted = False\<rparr>"
proof -
  let ?c = "\<lparr>ClientIP = ''10.0.0.1'', response = None, aborted = False\<rparr>"
  let ?h = "\<lambda>c::Context. c\<lparr>response := Some (200, [(''message'', ''ok'')])\<rparr>"
  let ?rl = "snd (Allow (NewRateLimiter 1 100) 0 ''10.0.0.1'')"
  have d: "\<not> fst (Allow ?rl 10 (ClientIP ?c))"
    by (simp add: Allow_def NewRateLimiter_def validTimes_def Sub_def minDuration_def
        maxDuration_def)
  have a: "fst (Allow (NewRateLimiter 1 100) 0 (ClientIP ?c))"
    by (simp add: Allow_def NewRateLimiter_def)
  show ?thesis
    using d a RateLimitMiddleware_outcome [of ?rl 10 ?c ?h ?h]
      RateLimitMiddleware_outcome [of "NewRateLimiter 1 100" 0 ?c ?h ?h]
    by simp
qed

section \<open>One cleanup pass\<close>

lemma cleanup_key_limit [simp]: "limit (cleanup_key now rl key) = limit rl"
  by (simp add: cleanup_key_def Let_def split: option.splits)

lemma cleanup_key_window [simp]: "window (cleanup_key now rl key) = window rl"
  by (simp add: cleanup_key_def Let_def split: option.splits)

lemma cleanup_pass_snoc:
  "cleanup_pass rl now (keys @ [key]) = cleanup_key now (cleanup_pass rl now keys) key"
  by (simp add: cleanup_pass_def)

lemma cleanup_pass_limit [simp]: "limit (cleanup_pass rl now keys) = limit rl"
  by (induction keys rule: rev_induct) (simp_all add: cleanup_pass_snoc, simp add: cleanup_pass_def)

lemma cleanup_pass_window [simp]: "window (cleanup_pass rl now keys) = window rl"
  by (induction keys rule: rev_induct) (simp_all add: cleanup_pass_snoc, simp add: cleanup_pass_def)

lemma cleanup_key_requests:
  "requests (cleanup_key now rl key) k =
     (if k = key
      then (case requests rl key of
              None \<Rightarrow> None
            | Some tms \<Rightarrow>
                (if validTimes now (window rl) tms = [] then None
                 else Some (validTimes now (window rl) tms)))
      else requests rl k)"
  by (simp add: cleanup_key_def Let_def split: option.splits)

lemma validTimes_idem:
  "validTimes now win (validTimes now win tms) = validTimes now win tms"
  by (simp add: validTimes_filter)

lemma cleanup_pass_requests:
  "requests (cleanup_pass rl now keys) k =
     (if k \<in> set keys
      then (case requests rl k of
              None \<Rightarrow> None
            | Some tms \<Rightarrow>
                (if validTimes now (window rl) tms = [] then None
                 else Some (validTimes now (window rl) tms)))
      else requests rl k)"
proof (induction keys rule: rev_induct)
  case Nil
  show ?case by (simp add: cleanup_pass_def)
next
  case (snoc key keys)
  show ?case
  proof (cases "k = key")
    case False
    then show ?thesis
      by (simp add: cleanup_pass_snoc cleanup_key_requests snoc.IH)
  next
    case True
    show ?thesis
      using snoc.IH unfolding True
      by (cases "requests rl key"; cases "key \<in> set keys")
         (simp_all add: cleanup_pass_snoc cleanup_key_requests validTimes_idem)
  qed
qed

text \<open>
  Claim C7. After one cleanup pass at time \<open>now\<close> that has met every key of the map,
  each key still in the map has a non-empty sequence, all of whose timestamps \<open>t\<close>
  satisfy \<open>now - t < window\<close>; a key whose filtered sequence is empty is no longer in
  the map; a key whose filtered sequence is not empty holds exactly that sequence; and
  no key is added. The window is any value of the 64-bit duration type.
\<close>

theorem cleanup_pass_leaves_fresh_nonempty:
  assumes "set keys = dom (requests rl)" and "window rl \<le> maxDuration"
  shows "(\<forall>k tms. requests (cleanup_pass rl now keys) k = Some tms \<longrightarrow>
            tms \<noteq> [] \<and> (\<forall>t\<in>set tms. now - t < window rl)) \<and>
         (\<forall>k tms. requests rl k = Some tms \<and> validTimes now (window rl) tms = [] \<longrightarrow>
            requests (cleanup_pass rl now keys) k = None) \<and>
         (\<forall>k tms. requests rl k = Some tms \<and> validTimes now (window rl) tms \<noteq> [] \<longrightarrow>
            requests (cleanup_pass rl now keys) k = Some (validTimes now (window rl) tms)) \<and>
         (\<forall>k. requests rl k = None \<longrightarrow> requests (cleanup_pass rl now keys) k = None)"
proof -
  have entry: "requests (cleanup_pass rl now keys) k =
      (case requests rl k of
         None \<Rightarrow> None
       | Some tms \<Rightarrow>
           (if validTimes now (window rl) tms = [] then None
            else Some (validTimes now (window rl) tms)))" for k
    using assms(1) by (auto simp add: cleanup_pass_requests split: option.splits)
  have fresh: "now - t < window rl" if "t \<in> set (validTimes now (window rl) tms)" for t tms
    using that assms(2) by (auto simp add: validTimes_filter intro: Sub_less_only_if)
  show ?thesis
    using fresh by (auto simp add: entry split: option.splits if_splits)
qed

theorem cleanup_pass_leaves_fresh_nonempty_witness:
  "set [''10.0.0.1'', ''10.0.0.2''] =
     dom (requests \<lparr>requests = [''10.0.0.1'' \<mapsto> [0], ''10.0.0.2'' \<mapsto> [40, 95]],
                    limit = 3, window = 100\<rparr>) \<and>
   window \<lparr>requests = [''10.0.0.1'' \<mapsto> [0], ''10.0.0.2'' \<mapsto> [40, 95]],
           limit = 3, window = 100\<rparr> \<le> maxDuration \<and>
   requests (cleanup_pass \<lparr>requests = [''10.0.0.1'' \<mapsto> [0], ''10.0.0.2'' \<mapsto> [40, 95]],
                           limit = 3, window = 100\<rparr> 150 [''10.0.0.1'', ''10.0.0.2''])
     ''10.0.0.1'' = None \<and>
   requests (cleanup_pass \<lparr>requests = [''10.0.0.1'' \<mapsto> [0], ''10.0.0.2'' \<mapsto> [40, 95]],
                           limit = 3, window = 100\<rparr> 150 [''10.0.0.1'', ''10.0.0.2''])
     ''10.0.0.2'' = Some [95]"
proof -
  let ?rl = "\<lparr>requests = [''10.0.0.1'' \<mapsto> [0::int], ''10.0.0.2'' \<mapsto> [40, 95]],
              limit = 3, window = 100\<rparr>"
  have d: "set [''10.0.0.1'', ''10.0.0.2''] = dom (requests ?rl)"
    by auto
  have w: "window ?rl \<le> maxDuration"
    by (simp add: maxDuration_def)
  have v1: "requests ?rl ''10.0.0.1'' = Some [0] \<and> validTimes 150 (window ?rl) [0] = []"
    by (simp add: validTimes_def Sub_def minDuration_def maxDuration_def)
  have v2: "requests ?rl ''10.0.0.2'' = Some [40, 95] \<and>
            validTimes 150 (window ?rl) [40, 95] = [95]"
    by (simp add: validTimes_def Sub_def minDuration_def maxDuration_def)
  from cleanup_pass_leaves_fresh_nonempty [OF d w, of 150]
  have a: "\<forall>k tms. requests ?rl k = Some tms \<and> validTimes 150 (window ?rl) tms = [] \<longrightarrow>
            requests (cleanup_pass ?rl 150 [''10.0.0.1'', ''10.0.0.2'']) k = None"
    and b: "\<forall>k tms. requests ?rl k = Some tms \<and> validTimes 150 (window ?rl) tms \<noteq> [] \<longrightarrow>
            requests (cleanup_pass ?rl 150 [''10.0.0.1'', ''10.0.0.2'']) k =
              Some (validTimes 150 (window ?rl) tms)"
    by blast+
  have r1: "requests (cleanup_pass ?rl 150 [''10.0.0.1'', ''10.0.0.2'']) ''10.0.0.1'' = None"
    using a v1 by blast
  have r2: "requests (cleanup_pass ?rl 150 [''10.0.0.1'', ''10.0.0.2'']) ''10.0.0.2'' = Some [95]"
    using b [rule_format, of "''10.0.0.2''" "[40, 95]"] v2 by simp
  from d w r1 r2 show ?thesis by blast
qed

section \<open>Cleanup and the answers of Allow\<close>

lemma validTimes_later:
  "T \<le> now \<Longrightarrow> validTimes now win (validTimes T win tms) = validTimes now win tms"
proof -
  assume le: "T \<le> now"
  have "\<And>t. Sub now t < win \<Longrightarrow> Sub T t < win"
    using Sub_mono [OF le] by (meson le_less_trans)
  then show ?thesis
    by (auto simp add: validTimes_filter intro: filter_cong)
qed

text \<open>
  Claim C5. For a limiter whose limit is at least 1, a cleanup pass at a time \<open>T\<close> not
  after \<open>now\<close>, over any keys in any order, does not change the boolean that
  \<open>Allow\<close> returns at time \<open>now\<close> for any key. (The limit is at least 1 in every
  limiter the program constructs; with a limit of 0 the pass can delete a key whose next
  call then takes the absent-key branch.)
\<close>

theorem cleanup_pass_invisible:
  assumes "1 \<le> limit rl" and "T \<le> now"
  shows "fst (Allow (cleanup_pass rl T keys) now key) = fst (Allow rl now key)"
proof (cases "requests rl key")
  case None
  then have "requests (cleanup_pass rl T keys) key = None"
    by (simp add: cleanup_pass_requests)
  with None show ?thesis by (simp add: Allow_def)
next
  case (Some tms)
  show ?thesis
  proof (cases "key \<in> set keys \<and> validTimes T (window rl) tms = []")
    case True
    then have gone: "requests (cleanup_pass rl T keys) key = None"
      using Some by (simp add: cleanup_pass_requests)
    have "validTimes now (window rl) (validTimes T (window rl) tms) = []"
      using True by (simp add: validTimes_filter)
    then have "validTimes now (window rl) tms = []"
      using validTimes_later [OF assms(2)] by simp
    with gone Some assms(1) show ?thesis by (simp add: Allow_def)
  next
    case False
    then have "requests (cleanup_pass rl T keys) key = Some tms \<or>
        requests (cleanup_pass rl T keys) key = Some (validTimes T (window rl) tms)"
      using Some by (auto simp add: cleanup_pass_requests)
    then show ?thesis
      using Some validTimes_later [OF assms(2), of "window rl" tms]
      by (auto simp add: Allow_def Let_def)
  qed
qed


theorem cleanup_pass_invisible_witness:
  "1 \<le> limit (snd (Allow (NewRateLimiter 1 100) 0 ''10.0.0.1'')) \<and> (120::int) \<le> 130 \<and>
   requests (cleanup_pass (snd (Allow (NewRateLimiter 1 100) 0 ''10.0.0.1'')) 120 [''10.0.0.1''])
     ''10.0.0.1'' = None \<and>
   fst (Allow (cleanup_pass (snd (Allow (NewRateLimiter 1 100) 0 ''10.0.0.1'')) 120
                 [''10.0.0.1'']) 130 ''10.0.0.1'') = True \<and>
   fst (Allow (snd (Allow (NewRateLimiter 1 100) 0 ''10.0.0.1'')) 130 ''10.0.0.1'') = True \<and>
   fst (Allow (cleanup_pass (snd (Allow (NewRateLimiter 1 100) 0 ''10.0.0.1'')) 50
                 [''10.0.0.1'']) 60 ''10.0.0.1'') = False \<and>
   fst (Allow (snd (Allow (NewRateLimiter 1 100) 0 ''10.0.0.1'')) 60 ''10.0.0.1'') = False"
proof -
  let ?rl = "snd (Allow (NewRateLimiter 1 100) 0 ''10.0.0.1'')"
  have l: "1 \<le> limit ?rl"
    by (simp add: NewRateLimiter_def)
  have t1: "(120::int) \<le> 130" and t2: "(50::int) \<le> 60"
    by simp_all
  have gone: "requests (cleanup_pass ?rl 120 [''10.0.0.1'']) ''10.0.0.1'' = None"
    by (simp add: cleanup_pass_def cleanup_key_def Allow_def NewRateLimiter_def validTimes_def
        Sub_def minDuration_def maxDuration_def)
  have a: "fst (Allow ?rl 130 ''10.0.0.1'') = True"
    by (simp add: Allow_def NewRateLimiter_def validTimes_def Sub_def minDuration_def
        maxDuration_def)
  have b: "fst (Allow ?rl 60 ''10.0.0.1'') = False"
    by (simp add: Allow_def NewRateLimiter_def validTimes_def Sub_def minDuration_def
        maxDuration_def)
  show ?thesis
    using l t1 gone a b
      cleanup_pass_invisible [OF l t1, of "[''10.0.0.1'']" "''10.0.0.1''"]
      cleanup_pass_invisible [OF l t2, of "[''10.0.0.1'']" "''10.0.0.1''"]
    by simp
qed

section \<open>A burst of calls for one key\<close>

lemma NewRateLimiter_sel [simp]:
  "requests (NewRateLimiter L W) = Map.empty"
  "limit (NewRateLimiter L W) = L"
  "window (NewRateLimiter L W) = W"
  by (simp_all add: NewRateLimiter_def)

lemma Allow_present:
  "requests rl key = Some tms \<Longrightarrow>
   fst (Allow rl now key) = (int (length (validTimes now (window rl) tms)) < limit rl) \<and>
   requests (snd (Allow rl now key)) key =
     (if int (length (validTimes now (window rl) tms)) < limit rl
      then Some (validTimes now (window rl) tms @ [now]) else Some tms)"
  by (auto simp add: Allow_def Let_def)

lemma validTimes_all_fresh:
  "\<forall>x\<in>set xs. Sub now x < win \<Longrightarrow> validTimes now win xs = xs"
  by (simp add: validTimes_filter)

lemma run_burst:
  "requests rl key = Some xs \<Longrightarrow>
   \<forall>t\<in>set ts. \<forall>x\<in>set xs \<union> set ts. Sub t x < window rl \<Longrightarrow>
   fst (run rl (map (CallAllow key) ts)) =
     replicate (min (length ts) (nat (limit rl) - length xs)) True @
     replicate (length ts - (nat (limit rl) - length xs)) False \<and>
   requests (snd (run rl (map (CallAllow key) ts))) key =
     Some (xs @ take (nat (limit rl) - length xs) ts)"
proof (induction ts arbitrary: rl xs)
  case Nil
  then show ?case by simp
next
  case (Cons t ts)
  let ?rl' = "snd (Allow rl t key)"
  have keep: "validTimes t (window rl) xs = xs"
    using Cons.prems(2) by (intro validTimes_all_fresh) simp
  note step = Allow_present [OF Cons.prems(1), of t, unfolded keep]
  show ?case
  proof (cases "int (length xs) < limit rl")
    case False
    then have m0: "nat (limit rl) - length xs = 0" by simp
    have e: "requests ?rl' key = Some xs" and den: "\<not> fst (Allow rl t key)"
      using step False by simp_all
    have f: "\<forall>u\<in>set ts. \<forall>x\<in>set xs \<union> set ts. Sub u x < window ?rl'"
      using Cons.prems(2) by simp
    from Cons.IH [OF e f] den show ?thesis
      by (simp add: run_CallAllow_Cons m0 del: run.simps(2))
  next
    case True
    have e: "requests ?rl' key = Some (xs @ [t])" and adm: "fst (Allow rl t key)"
      using step True by simp_all
    have f: "\<forall>u\<in>set ts. \<forall>x\<in>set (xs @ [t]) \<union> set ts. Sub u x < window ?rl'"
      using Cons.prems(2) by simp
    obtain m where m: "nat (limit rl) - length xs = Suc m"
      using True by (cases "nat (limit rl) - length xs") simp_all
    then have m': "nat (limit rl) - length (xs @ [t]) = m" by simp
    from Cons.IH [OF e f] adm show ?thesis
      by (simp add: run_CallAllow_Cons m m' del: length_append run.simps(2))
  qed
qed

lemma sorted_span:
  "sorted ts \<Longrightarrow> t \<in> set ts \<Longrightarrow> x \<in> set ts \<Longrightarrow> t - x \<le> last ts - hd ts" for ts :: "int list"
proof -
  assume s: "sorted ts" and t: "t \<in> set ts" and x: "x \<in> set ts"
  from t obtain i where i: "i < length ts" "ts ! i = t" by (auto simp add: in_set_conv_nth)
  from x obtain j where j: "j < length ts" "ts ! j = x" by (auto simp add: in_set_conv_nth)
  have ne: "ts \<noteq> []" using t by auto
  have "t \<le> last ts"
    using sorted_nth_mono [OF s, of i "length ts - 1"] i ne by (simp add: last_conv_nth)
  moreover have "hd ts \<le> x"
    using sorted_nth_mono [OF s, of 0 j] j ne by (simp add: hd_conv_nth)
  ultimately show ?thesis by simp
qed

lemma run_fresh_burst:
  assumes "1 \<le> L" and "0 < W" and "sorted (t1 # ts)" and "last (t1 # ts) - t1 < W"
  shows "fst (run (NewRateLimiter L W) (map (CallAllow key) (t1 # ts))) =
           replicate (min (Suc (length ts)) (nat L)) True @
           replicate (Suc (length ts) - nat L) False \<and>
         requests (snd (run (NewRateLimiter L W) (map (CallAllow key) (t1 # ts)))) key =
           Some (take (nat L) (t1 # ts))"
proof -
  let ?rl = "snd (Allow (NewRateLimiter L W) t1 key)"
  have first: "fst (Allow (NewRateLimiter L W) t1 key)"
    and e: "requests ?rl key = Some [t1]"
    and l: "limit ?rl = L" and w: "window ?rl = W"
    by (simp_all add: Allow_def NewRateLimiter_def)
  have span: "t - x < W" if "t \<in> set (t1 # ts)" "x \<in> set (t1 # ts)" for t x
    using sorted_span [OF assms(3) that] assms(4) by simp
  have fresh: "\<forall>t\<in>set ts. \<forall>x\<in>set [t1] \<union> set ts. Sub t x < window ?rl"
    unfolding w using span assms(2) by (auto intro!: Sub_less_if)
  obtain n where n: "nat L = Suc n"
    using assms(1) by (cases "nat L") simp_all
  from run_burst [OF e fresh] first show ?thesis
    by (simp add: run_CallAllow_Cons n del: run.simps(2))
qed

text \<open>
  Claim C1. On a new limiter with limit \<open>L \<ge> 1\<close> and window \<open>W > 0\<close>, take
  \<open>L + 1\<close> calls for one key at clock readings that do not decrease and span less
  than \<open>W\<close> from the first to the last. The first \<open>L\<close> calls return true and call
  number \<open>L + 1\<close> returns false.
\<close>

theorem Allow_burst:
  assumes "1 \<le> L" and "0 < W" and "length ts = nat L + 1"
    and "sorted ts" and "last ts - hd ts < W"
  shows "fst (run (NewRateLimiter L W) (map (CallAllow key) ts)) = replicate (nat L) True @ [False]"
proof -
  obtain t1 ts' where ts: "ts = t1 # ts'"
    using assms(3) by (cases ts) simp_all
  have len: "length ts' = nat L" using assms(3) ts by simp
  have "fst (run (NewRateLimiter L W) (map (CallAllow key) (t1 # ts'))) =
      replicate (min (Suc (length ts')) (nat L)) True @ replicate (Suc (length ts') - nat L) False"
    using run_fresh_burst [OF assms(1,2), of t1 ts' key] assms(4,5) ts by simp
  then show ?thesis
    by (simp add: ts len)
qed

theorem Allow_burst_witness:
  "(1::int) \<le> 3 \<and> (0::int) < 1000000000 \<and> length [0, 0, 0, 0::int] = nat 3 + 1 \<and>
   sorted [0, 0, 0, 0::int] \<and> last [0, 0, 0, 0] - hd [0, 0, 0, 0::int] < 1000000000 \<and>
   fst (run (NewRateLimiter 3 1000000000) (map (CallAllow ''1.2.3.4'') [0, 0, 0, 0])) =
     [True, True, True, False]"
proof -
  have h1: "(1::int) \<le> 3" and h2: "(0::int) < 1000000000"
    and h3: "length [0, 0, 0, 0::int] = nat 3 + 1"
    and h4: "sorted [0, 0, 0, 0::int]"
    and h5: "last [0, 0, 0, 0] - hd [0, 0, 0, 0::int] < 1000000000"
    by simp_all
  have r: "replicate (nat 3) True @ [False] = [True, True, True, False]"
    by (simp add: numeral_3_eq_3)
  show ?thesis
    using h1 h2 h3 h4 h5 Allow_burst [OF h1 h2 h3 h4 h5, of "''1.2.3.4''"] r by simp
qed

section \<open>The invariant of runs\<close>

lemma run_Tick_Cons: "run rl (Tick now keys # evs) = run (cleanup_pass rl now keys) evs"
  by simp

lemma run_limit [simp]: "limit (snd (run rl evs)) = limit rl"
proof (induction evs arbitrary: rl)
  case Nil
  show ?case by simp
next
  case (Cons e evs)
  show ?case
    by (cases e) (simp_all add: run_CallAllow_Cons Cons.IH del: run.simps(2))
qed

lemma run_window [simp]: "window (snd (run rl evs)) = window rl"
proof (induction evs arbitrary: rl)
  case Nil
  show ?case by simp
next
  case (Cons e evs)
  show ?case
    by (cases e) (simp_all add: run_CallAllow_Cons Cons.IH del: run.simps(2))
qed

lemma length_validTimes_le: "length (validTimes now win tms) \<le> length tms"
  by (simp add: validTimes_filter)

lemma set_validTimes_subset: "set (validTimes now win tms) \<subseteq> set tms"
  by (auto simp add: validTimes_filter)

lemma Allow_requests_own:
  "requests (snd (Allow rl now key)) key =
     (case requests rl key of
        None \<Rightarrow> Some [now]
      | Some tms \<Rightarrow>
          (if int (length (validTimes now (window rl) tms)) < limit rl
           then Some (validTimes now (window rl) tms @ [now]) else Some tms))"
  by (auto simp add: Allow_def Let_def split: option.splits)

lemma quota_respected_Allow:
  assumes "1 \<le> limit rl" and "t \<le> now" and "quota_respected now rl"
  shows "quota_respected now (snd (Allow rl t key))"
  unfolding quota_respected_def
proof (intro allI impI)
  fix k tms
  assume st: "requests (snd (Allow rl t key)) k = Some tms"
  show "int (length tms) \<le> limit (snd (Allow rl t key)) \<and> (\<forall>u\<in>set tms. u \<le> now)"
  proof (cases "k = key")
    case False
    then have "requests rl k = Some tms"
      using st by (simp add: Allow_requests_other)
    then show ?thesis
      using assms(3) by (simp add: quota_respected_def)
  next
    case True
    show ?thesis
    proof (cases "requests rl key")
      case None
      then have "tms = [t]"
        using st True by (simp add: Allow_requests_own)
      then show ?thesis using assms(1,2) by simp
    next
      case (Some old)
      have old: "int (length old) \<le> limit rl" "\<forall>u\<in>set old. u \<le> now"
        using assms(3) Some by (simp_all add: quota_respected_def)
      show ?thesis
      proof (cases "int (length (validTimes t (window rl) old)) < limit rl")
        case False
        then have "tms = old"
          using st True Some by (simp add: Allow_requests_own)
        then show ?thesis using old by simp
      next
        case adm: True
        then have "tms = validTimes t (window rl) old @ [t]"
          using st True Some by (simp add: Allow_requests_own)
        then show ?thesis
          using adm old(2) assms(2) set_validTimes_subset [of t "window rl" old] by auto
      qed
    qed
  qed
qed

lemma quota_respected_cleanup_pass:
  assumes "quota_respected now rl"
  shows "quota_respected now (cleanup_pass rl T keys)"
  unfolding quota_respected_def
proof (intro allI impI)
  fix k tms
  assume st: "requests (cleanup_pass rl T keys) k = Some tms"
  then obtain old where old: "requests rl k = Some old"
    and tms: "tms = old \<or> tms = validTimes T (window rl) old"
    by (auto simp add: cleanup_pass_requests split: if_splits option.splits)
  have o: "int (length old) \<le> limit rl" "\<forall>u\<in>set old. u \<le> now"
    using assms old by (simp_all add: quota_respected_def)
  from tms show "int (length tms) \<le> limit (cleanup_pass rl T keys) \<and> (\<forall>u\<in>set tms. u \<le> now)"
  proof
    assume "tms = old"
    with o show ?thesis by simp
  next
    assume v: "tms = validTimes T (window rl) old"
    have "int (length tms) \<le> int (length old)"
      unfolding v using length_validTimes_le [of T "window rl" old] by simp
    moreover have "set tms \<subseteq> set old"
      unfolding v by (rule set_validTimes_subset)
    ultimately show ?thesis using o by auto
  qed
qed

lemma quota_respected_run:
  "1 \<le> limit rl \<Longrightarrow> \<forall>e\<in>set evs. event_time e \<le> now \<Longrightarrow> quota_respected now rl \<Longrightarrow>
   quota_respected now (snd (run rl evs))"
proof (induction evs arbitrary: rl)
  case Nil
  then show ?case by simp
next
  case (Cons e evs)
  show ?case
  proof (cases e)
    case (CallAllow key t)
    have "quota_respected now (snd (Allow rl t key))"
      using Cons.prems CallAllow by (intro quota_respected_Allow) simp_all
    then have "quota_respected now (snd (run (snd (Allow rl t key)) evs))"
      using Cons.prems by (intro Cons.IH) simp_all
    then show ?thesis
      by (simp add: CallAllow run_CallAllow_Cons del: run.simps(2))
  next
    case (Tick t keys)
    have "quota_respected now (cleanup_pass rl t keys)"
      using Cons.prems(3) by (rule quota_respected_cleanup_pass)
    then have "quota_respected now (snd (run (cleanup_pass rl t keys) evs))"
      using Cons.prems by (intro Cons.IH) simp_all
    then show ?thesis
      by (simp add: Tick)
  qed
qed

lemma quota_respected_New: "quota_respected now (NewRateLimiter L W)"
  by (simp add: quota_respected_def)

lemma validTimes_same_length:
  "length (validTimes now win tms) = length tms \<Longrightarrow> validTimes now win tms = tms"
  unfolding validTimes_filter
  by (metis filter_True length_filter_less linorder_neq_iff)

text \<open>
  Claim C3. Take a new limiter with limit \<open>L \<ge> 1\<close> and a window \<open>W > 0\<close> of the
  duration type, any run of calls and cleanup ticks on it, and a call \<open>Allow key\<close> that
  reads a clock value \<open>now\<close> no earlier than the events of the run. After the call,
  whether it returned true or false, the key has an entry and every timestamp \<open>t\<close> in it
  satisfies \<open>now - W \<le> t \<le> now\<close>. When the call returned false, the entry is the
  filtered sequence of the entry before the call: nothing stale is left in it, and
  nothing was appended.
\<close>

theorem Allow_leaves_key_within_window:
  assumes "1 \<le> L" and "0 < W" and "W \<le> maxDuration"
    and "\<forall>e\<in>set evs. event_time e \<le> now"
  shows "\<exists>tms. requests (snd (Allow (snd (run (NewRateLimiter L W) evs)) now key)) key = Some tms \<and>
           (\<forall>t\<in>set tms. now - W \<le> t \<and> t \<le> now) \<and>
           (\<not> fst (Allow (snd (run (NewRateLimiter L W) evs)) now key) \<longrightarrow>
              (\<exists>old. requests (snd (run (NewRateLimiter L W) evs)) key = Some old \<and>
                     tms = validTimes now W old))"
proof -
  let ?rl = "snd (run (NewRateLimiter L W) evs)"
  have lim: "limit ?rl = L" and win: "window ?rl = W" by simp_all
  have inv: "quota_respected now ?rl"
    using assms(1,4) by (intro quota_respected_run quota_respected_New) simp_all
  have fresh: "now - W \<le> t" if "t \<in> set (validTimes now W old)" for t old
    using that Sub_less_only_if [OF assms(3), of now t] by (auto simp add: validTimes_filter)
  show ?thesis
  proof (cases "requests ?rl key")
    case None
    then show ?thesis
      using assms(2) by (simp add: Allow_def)
  next
    case (Some old)
    have old: "int (length old) \<le> L" "\<forall>u\<in>set old. u \<le> now"
      using inv Some lim by (auto simp add: quota_respected_def)
    show ?thesis
    proof (cases "int (length (validTimes now W old)) < L")
      case True
      then have "fst (Allow ?rl now key)"
        and "requests (snd (Allow ?rl now key)) key = Some (validTimes now W old @ [now])"
        using Some by (simp_all add: Allow_def Let_def)
      moreover have "\<forall>t\<in>set (validTimes now W old @ [now]). now - W \<le> t \<and> t \<le> now"
        using fresh old(2) set_validTimes_subset [of now W old] assms(2) by auto
      ultimately show ?thesis by simp
    next
      case False
      then have den: "\<not> fst (Allow ?rl now key)"
        and st: "requests (snd (Allow ?rl now key)) key = Some old"
        using Some by (simp_all add: Allow_def Let_def)
      have "length (validTimes now W old) = length old"
        using False old(1) length_validTimes_le [of now W old] by simp
      then have same: "validTimes now W old = old"
        by (rule validTimes_same_length)
      have "\<forall>t\<in>set old. now - W \<le> t \<and> t \<le> now"
        using fresh [of _ old] old(2) same by simp
      with st Some same show ?thesis by simp
    qed
  qed
qed

theorem Allow_leaves_key_within_window_witness:
  "(1::int) \<le> 1 \<and> (0::int) < 100 \<and> (100::int) \<le> maxDuration \<and>
   event_time (CallAllow ''10.0.0.1'' 0) \<le> 20 \<and> event_time (Tick 5 [''10.0.0.1'']) \<le> 20 \<and>
   event_time (CallAllow ''10.0.0.1'' 10) \<le> 20 \<and>
   \<not> fst (Allow (snd (run (NewRateLimiter 1 100)
                      [CallAllow ''10.0.0.1'' 0, Tick 5 [''10.0.0.1''], CallAllow ''10.0.0.1'' 10]))
             20 ''10.0.0.1'') \<and>
   requests (snd (Allow (snd (run (NewRateLimiter 1 100)
                      [CallAllow ''10.0.0.1'' 0, Tick 5 [''10.0.0.1''], CallAllow ''10.0.0.1'' 10]))
             20 ''10.0.0.1'')) ''10.0.0.1'' = Some [0] \<and>
   (20::int) - 100 \<le> 0 \<and> (0::int) \<le> 20"
proof -
  let ?evs = "[CallAllow ''10.0.0.1'' 0, Tick 5 [''10.0.0.1''], CallAllow ''10.0.0.1'' 10]"
  have h1: "(1::int) \<le> 1" and h2: "(0::int) < 100" by simp_all
  have h3: "(100::int) \<le> maxDuration" by (simp add: maxDuration_def)
  have h4: "\<forall>e\<in>set ?evs. event_time e \<le> 20" by simp
  have st: "requests (snd (run (NewRateLimiter 1 100) ?evs)) ''10.0.0.1'' = Some [0]"
    by (simp add: Allow_def NewRateLimiter_def cleanup_pass_def cleanup_key_def validTimes_def
        Sub_def minDuration_def maxDuration_def)
  have den: "\<not> fst (Allow (snd (run (NewRateLimiter 1 100) ?evs)) 20 ''10.0.0.1'')"
    using Allow_present [OF st, of 20]
    by (simp add: validTimes_def Sub_def minDuration_def maxDuration_def del: run.simps)
  from Allow_leaves_key_within_window [OF h1 h2 h3 h4, of "''10.0.0.1''"] den st
  obtain tms where
    a: "requests (snd (Allow (snd (run (NewRateLimiter 1 100) ?evs)) 20 ''10.0.0.1''))
          ''10.0.0.1'' = Some tms"
    and b: "\<forall>t\<in>set tms. 20 - 100 \<le> t \<and> t \<le> 20"
    and c: "tms = validTimes 20 100 [0]"
    by auto
  have "tms = [0]"
    using c by (simp add: validTimes_def Sub_def minDuration_def maxDuration_def)
  with a b h1 h2 h3 den show ?thesis by simp
qed

section \<open>Stale timestamps and the rollover of the window\<close>

lemma validTimes_criterion:
  "0 < W \<Longrightarrow> W \<le> maxDuration \<Longrightarrow> validTimes now W tms = filter (\<lambda>t. \<not> W \<le> now - t) tms"
  by (auto simp add: validTimes_filter Sub_less_iff intro: filter_cong)

text \<open>
  Claim C2. For a window \<open>W > 0\<close> of the duration type, the filtering loop drops a
  timestamp \<open>t\<close> exactly when \<open>now - t \<ge> W\<close> and keeps the others in order; for a
  key that has an entry, \<open>Allow\<close> returns true exactly when fewer than \<open>limit\<close>
  timestamps are kept, and then stores the kept ones followed by \<open>now\<close>. Hence, on a
  new limiter with limit at least 1, after any number of calls for one key at times
  that do not decrease and span less than \<open>W\<close> from the first call \<open>t1\<close> (so the
  quota may be used up and further calls denied), a call at a time \<open>now'\<close> with
  \<open>now' - t1 \<ge> W\<close> returns true.
\<close>

theorem stale_criterion_and_rollover:
  assumes "0 < W" and "W \<le> maxDuration"
  shows "validTimes now W tms = filter (\<lambda>t. \<not> W \<le> now - t) tms \<and>
         (window rl = W \<and> requests rl key = Some tms \<longrightarrow>
            fst (Allow rl now key) =
              (int (length (filter (\<lambda>t. \<not> W \<le> now - t) tms)) < limit rl) \<and>
            (fst (Allow rl now key) \<longrightarrow>
               requests (snd (Allow rl now key)) key =
                 Some (filter (\<lambda>t. \<not> W \<le> now - t) tms @ [now]))) \<and>
         (1 \<le> L \<and> sorted (t1 # ts) \<and> last (t1 # ts) - t1 < W \<and> W \<le> now' - t1 \<longrightarrow>
            fst (Allow (snd (run (NewRateLimiter L W) (map (CallAllow key) (t1 # ts)))) now' key))"
proof (intro conjI impI)
  show crit: "validTimes now W tms = filter (\<lambda>t. \<not> W \<le> now - t) tms"
    using assms by (rule validTimes_criterion)
  {
    assume a: "window rl = W \<and> requests rl key = Some tms"
    then have p: "requests rl key = Some tms" and w: "window rl = W" by simp_all
    show "fst (Allow rl now key) =
        (int (length (filter (\<lambda>t. \<not> W \<le> now - t) tms)) < limit rl)"
      using Allow_present [OF p, of now] by (simp add: w crit)
    assume "fst (Allow rl now key)"
    then show "requests (snd (Allow rl now key)) key =
        Some (filter (\<lambda>t. \<not> W \<le> now - t) tms @ [now])"
      using Allow_present [OF p, of now] by (simp add: w crit)
  }
  assume b: "1 \<le> L \<and> sorted (t1 # ts) \<and> last (t1 # ts) - t1 < W \<and> W \<le> now' - t1"
  let ?rl = "snd (run (NewRateLimiter L W) (map (CallAllow key) (t1 # ts)))"
  have st: "requests ?rl key = Some (take (nat L) (t1 # ts))"
    using run_fresh_burst [of L W t1 ts key] b assms(1) by simp
  obtain n where n: "nat L = Suc n"
    using b by (cases "nat L") simp_all
  have in_st: "t1 \<in> set (take (nat L) (t1 # ts))"
    by (simp add: n)
  have stale: "\<not> Sub now' t1 < W"
    using b Sub_less_only_if [OF assms(2), of now' t1] by auto
  have "length (validTimes now' W (take (nat L) (t1 # ts))) < length (take (nat L) (t1 # ts))"
    unfolding validTimes_filter using in_st stale by (rule length_filter_less)
  also have "\<dots> \<le> nat L" by simp
  finally have "int (length (validTimes now' W (take (nat L) (t1 # ts)))) < L"
    by simp
  then show "fst (Allow ?rl now' key)"
    using Allow_present [OF st, of now'] by (simp del: run.simps list.map)
qed

theorem stale_criterion_and_rollover_witness:
  "(0::int) < 1000000000 \<and> (1000000000::int) \<le> maxDuration \<and>
   (1::int) \<le> 3 \<and> sorted [0, 0, 0, 0::int] \<and> last [0, 0, 0, 0::int] - 0 < 1000000000 \<and>
   (1000000000::int) \<le> 1100000000 - 0 \<and>
   fst (run (NewRateLimiter 3 1000000000) (map (CallAllow ''1.2.3.4'') [0, 0, 0, 0])) =
     [True, True, True, False] \<and>
   fst (Allow (snd (run (NewRateLimiter 3 1000000000) (map (CallAllow ''1.2.3.4'') [0, 0, 0, 0])))
          1100000000 ''1.2.3.4'') \<and>
   validTimes 1100000000 1000000000 [0, 100000000, 100000001] = [100000001]"
proof -
  have h1: "(0::int) < 1000000000" by simp
  have h2: "(1000000000::int) \<le> maxDuration" by (simp add: maxDuration_def)
  have h3: "(1::int) \<le> 3 \<and> sorted [0, 0, 0, 0::int] \<and> last [0, 0, 0, 0::int] - 0 < 1000000000 \<and>
     (1000000000::int) \<le> 1100000000 - 0" by simp
  have r: "fst (run (NewRateLimiter 3 1000000000) (map (CallAllow ''1.2.3.4'') [0, 0, 0, 0])) =
     [True, True, True, False]"
    by (simp add: Allow_def NewRateLimiter_def validTimes_def Sub_def minDuration_def
        maxDuration_def)
  note inst = stale_criterion_and_rollover [OF h1 h2,
      of 1100000000 "[0, 100000000, 100000001]" _ "''1.2.3.4''" 3 0 "[0, 0, 0]" 1100000000]
  have a: "fst (Allow (snd (run (NewRateLimiter 3 1000000000)
      (map (CallAllow ''1.2.3.4'') [0, 0, 0, 0]))) 1100000000 ''1.2.3.4'')"
    using inst h3 by blast
  have b: "validTimes 1100000000 1000000000 [0, 100000000, 100000001] = [100000001]"
    using inst by simp
  from h1 h2 h3 r a b show ?thesis by blast
qed

end
